theory Spec2Isabelle
  imports Complex_Main "HOL-Library.Log_Nat" "HOL-Library.AList"
begin

section \<open>Python values used by \<open>visualise.py\<close>\<close>

text \<open>
  The exceptions that can arise inside \<open>LidarVisualiser.read_points\<close>: \<open>ValueError\<close>
  (from \<open>float\<close>, \<open>int\<close> and \<open>round\<close> of a NaN), \<open>OverflowError\<close> (from \<open>round\<close> of an
  infinity, and from \<open>int / int\<close>) and pyserial's \<open>SerialException\<close>.
  \<open>OverflowError\<close> is a subclass of \<open>ArithmeticError\<close>, not of \<open>ValueError\<close>.
\<close>

datatype py_error = ValueError | OverflowError | SerialException

text \<open>
  A Python \<open>float\<close> is an IEEE binary64 value: a finite number (always a rational), one of
  the two infinities, or a NaN. The sign of a zero is not kept: no operation of the
  program distinguishes \<open>-0.0\<close> from \<open>0.0\<close>.
\<close>

datatype pyfloat = Finite rat | PosInf | NegInf | NaN

text \<open>Rounding to the nearest integer, ties to the even one (Python's \<open>round(x)\<close>).\<close>

definition round_half_even :: "rat \<Rightarrow> int" where
  "round_half_even x =
     (let f = \<lfloor>x\<rfloor>; d = x - of_int f
      in if d < 1 / 2 then f else if 1 / 2 < d then f + 1 else if even f then f else f + 1)"

text \<open>\<open>ilog2 a\<close> is the exponent of the leading bit of a positive rational: \<open>\<lfloor>log\<^sub>2 a\<rfloor>\<close>.\<close>

definition ilog2 :: "rat \<Rightarrow> int" where
  "ilog2 a =
     (let k = bitlen (fst (quotient_of a)) - bitlen (snd (quotient_of a))
      in if 2 powi k \<le> a then k else k - 1)"

text \<open>The least magnitude that does not fit the binary64 format.\<close>

definition b64_huge :: rat where
  "b64_huge = 2 ^ 1024"

text \<open>
  \<open>b64_round q\<close> is the binary64 value nearest to the rational \<open>q\<close> (ties to even): 53
  significant bits, exponents from \<open>-1022\<close> (below that the spacing stays \<open>2 powi -1074\<close>:
  subnormal numbers), and an infinity when the rounded magnitude reaches \<open>b64_huge\<close>.
\<close>

definition b64_round :: "rat \<Rightarrow> pyfloat" where
  "b64_round q =
     (if q = 0 then Finite 0
      else let a = \<bar>q\<bar>;
               e = max (ilog2 a) (- 1022);
               u = 2 powi (e - 52);
               v = of_int (round_half_even (a / u)) * u
           in if b64_huge \<le> v then (if q < 0 then NegInf else PosInf)
              else Finite (if q < 0 then - v else v))"

fun fl_negative :: "pyfloat \<Rightarrow> bool" where
  "fl_negative (Finite a) = (a < 0)"
| "fl_negative NegInf = True"
| "fl_negative _ = False"

text \<open>\<open>x * y\<close> on floats.\<close>

definition fl_mul :: "pyfloat \<Rightarrow> pyfloat \<Rightarrow> pyfloat" where
  "fl_mul x y =
     (case (x, y) of
        (Finite a, Finite b) \<Rightarrow> b64_round (a * b)
      | (NaN, _) \<Rightarrow> NaN
      | (_, NaN) \<Rightarrow> NaN
      | _ \<Rightarrow> (if x = Finite 0 \<or> y = Finite 0 then NaN
              else if fl_negative x = fl_negative y then PosInf else NegInf))"

text \<open>Comparison and \<open>min\<close> on floats: a comparison with a NaN is false.\<close>

definition fl_less :: "pyfloat \<Rightarrow> pyfloat \<Rightarrow> bool" where
  "fl_less x y =
     (case (x, y) of
        (Finite a, Finite b) \<Rightarrow> a < b
      | (NaN, _) \<Rightarrow> False
      | (_, NaN) \<Rightarrow> False
      | (NegInf, _) \<Rightarrow> y \<noteq> NegInf
      | (_, PosInf) \<Rightarrow> x \<noteq> PosInf
      | _ \<Rightarrow> False)"

text \<open>\<open>min(a, b)\<close> returns \<open>a\<close> unless \<open>b < a\<close>.\<close>

definition py_min :: "pyfloat \<Rightarrow> pyfloat \<Rightarrow> pyfloat" where
  "py_min a b = (if fl_less b a then b else a)"

text \<open>\<open>round(x)\<close> with one argument: an \<open>int\<close>, or an exception on a non-finite float.\<close>

fun py_round :: "pyfloat \<Rightarrow> py_error + int" where
  "py_round (Finite a) = Inr (round_half_even a)"
| "py_round NaN = Inl ValueError"
| "py_round PosInf = Inl OverflowError"
| "py_round NegInf = Inl OverflowError"

text \<open>
  \<open>n / m\<close> on two \<open>int\<close>s with \<open>m \<noteq> 0\<close>: the correctly rounded quotient, a finite float, or
  \<open>OverflowError\<close> when the quotient is too large for a float. The program divides by the
  literal \<open>2\<close> only.
\<close>

definition int_truediv :: "int \<Rightarrow> int \<Rightarrow> py_error + rat" where
  "int_truediv n m =
     (case b64_round (of_int n / of_int m) of Finite q \<Rightarrow> Inr q | _ \<Rightarrow> Inl OverflowError)"

section \<open>Text and the numeric constructors\<close>

text \<open>
  A decoded line is a \<open>string\<close>: each \<open>char\<close> stands for the code point of the same number,
  so the model covers text made of code points below 256. Among those, \<open>str.isspace\<close> holds
  of 9 to 13, 28 to 32, 133 and 160; \<open>int\<close> and \<open>float\<close> skip, at both ends of their
  argument, the code points 9 to 13, 32, 133 and 160; the only decimal digits are
  \<open>0\<close> to \<open>9\<close>.
\<close>

definition isspace :: "char \<Rightarrow> bool" where
  "isspace c =
     (let n = (of_char c :: int) in (9 \<le> n \<and> n \<le> 13) \<or> (28 \<le> n \<and> n \<le> 32) \<or> n = 133 \<or> n = 160)"

definition strip :: "string \<Rightarrow> string" where
  "strip s = rev (dropWhile isspace (rev (dropWhile isspace s)))"

definition startswith :: "string \<Rightarrow> string \<Rightarrow> bool" where
  "startswith s p = (take (length p) s = p)"

text \<open>\<open>s.split(sep)\<close> for a one-character separator: never an empty list.\<close>

fun split :: "char \<Rightarrow> string \<Rightarrow> string list" where
  "split sep [] = [[]]"
| "split sep (c # cs) =
     (if c = sep then [] # split sep cs
      else (case split sep cs of [] \<Rightarrow> [[c]] | p # ps \<Rightarrow> (c # p) # ps))"

definition num_space :: "char \<Rightarrow> bool" where
  "num_space c =
     (let n = (of_char c :: int) in (9 \<le> n \<and> n \<le> 13) \<or> n = 32 \<or> n = 133 \<or> n = 160)"

definition num_strip :: "string \<Rightarrow> string" where
  "num_strip s = rev (dropWhile num_space (rev (dropWhile num_space s)))"

definition is_digit :: "char \<Rightarrow> bool" where
  "is_digit c = (let n = (of_char c :: int) in 48 \<le> n \<and> n \<le> 57)"

definition digit_val :: "char \<Rightarrow> int" where
  "digit_val c = of_char c - 48"

definition digits_val :: "string \<Rightarrow> int" where
  "digits_val ds = foldl (\<lambda>n c. 10 * n + digit_val c) 0 ds"

text \<open>
  Underscores in a numeric literal: each one must stand between two digits. The result is
  the text without them, or \<open>None\<close> when one is misplaced. The first argument is the
  previous character.
\<close>

fun drop_underscores :: "char \<Rightarrow> string \<Rightarrow> string option" where
  "drop_underscores prev [] = (if prev = CHR ''_'' then None else Some [])"
| "drop_underscores prev (c # cs) =
     (if c = CHR ''_'' then (if is_digit prev then drop_underscores c cs else None)
      else if prev = CHR ''_'' \<and> \<not> is_digit c then None
      else map_option ((#) c) (drop_underscores c cs))"

text \<open>An optional sign: whether it is a minus, and the rest.\<close>

fun split_sign :: "string \<Rightarrow> bool \<times> string" where
  "split_sign [] = (False, [])"
| "split_sign (c # cs) =
     (if c = CHR ''-'' then (True, cs) else if c = CHR ''+'' then (False, cs) else (False, c # cs))"

text \<open>
  \<open>int(s)\<close> in base 10. CPython refuses more than 4300 digits with a \<open>ValueError\<close>
  (its default \<open>int_max_str_digits\<close>).
\<close>

definition py_int :: "string \<Rightarrow> py_error + int" where
  "py_int s =
     (case drop_underscores (CHR 0x00) (num_strip s) of
        None \<Rightarrow> Inl ValueError
      | Some t \<Rightarrow>
          (let neg = fst (split_sign t); ds = snd (split_sign t)
           in if ds = [] \<or> \<not> list_all is_digit ds \<or> 4300 < length ds then Inl ValueError
              else Inr (if neg then - digits_val ds else digits_val ds)))"

definition ascii_lower :: "char \<Rightarrow> char" where
  "ascii_lower c =
     (let n = (of_char c :: int) in if 65 \<le> n \<and> n \<le> 90 then char_of (n + 32) else c)"

text \<open>The exponent part of a decimal literal: empty, or \<open>e\<close>, an optional sign and digits.\<close>

definition parse_exponent :: "string \<Rightarrow> int option" where
  "parse_exponent r =
     (case r of
        [] \<Rightarrow> Some 0
      | c # r' \<Rightarrow>
          (if c = CHR ''e'' \<or> c = CHR ''E'' then
             (let neg = fst (split_sign r'); ds = snd (split_sign r')
              in if ds = [] \<or> \<not> list_all is_digit ds then None
                 else Some (if neg then - digits_val ds else digits_val ds))
           else None))"

text \<open>
  An unsigned decimal literal: digits, an optional point and digits (at least one digit in
  all), an optional exponent. The result is its exact value.
\<close>

definition parse_decimal :: "string \<Rightarrow> rat option" where
  "parse_decimal r =
     (let ip = takeWhile is_digit r;
          r1 = dropWhile is_digit r;
          fp = (case r1 of [] \<Rightarrow> [] | c # r' \<Rightarrow> if c = CHR ''.'' then takeWhile is_digit r' else []);
          r2 = (case r1 of [] \<Rightarrow> [] | c # r' \<Rightarrow> if c = CHR ''.'' then dropWhile is_digit r' else r1)
      in if ip = [] \<and> fp = [] then None
         else (case parse_exponent r2 of
                 None \<Rightarrow> None
               | Some ex \<Rightarrow> Some (of_int (digits_val (ip @ fp)) * 10 powi (ex - int (length fp)))))"

text \<open>
  \<open>float(s)\<close>: \<open>inf\<close>, \<open>infinity\<close> and \<open>nan\<close> in any case, or a decimal literal rounded to
  the nearest float; a literal too large gives an infinity, not an exception.
\<close>

definition py_float :: "string \<Rightarrow> py_error + pyfloat" where
  "py_float s =
     (case drop_underscores (CHR 0x00) (num_strip s) of
        None \<Rightarrow> Inl ValueError
      | Some t \<Rightarrow>
          (let neg = fst (split_sign t); r = snd (split_sign t); lr = map ascii_lower r
           in if lr = ''inf'' \<or> lr = ''infinity'' then Inr (if neg then NegInf else PosInf)
              else if lr = ''nan'' then Inr NaN
              else (case parse_decimal r of
                      None \<Rightarrow> Inl ValueError
                    | Some q \<Rightarrow> Inr (b64_round (if neg then - q else q)))))"

section \<open>The visualiser\<close>

text \<open>
  The serial handle \<open>self.ser\<close> is \<open>None\<close> until \<open>connect\<close> succeeds. An open handle is
  modelled by what it delivers during the coming read pass, one event for each turn of
  the loop \<open>while self.ser.in_waiting\<close>: \<open>RxLine t\<close> when \<open>in_waiting\<close> was non-zero and
  \<open>readline()\<close> returned bytes that decode (UTF-8, errors ignored) to the text \<open>t\<close>;
  \<open>RxFault\<close> when \<open>in_waiting\<close> or \<open>readline()\<close> raised \<open>SerialException\<close>. When no event is
  left, \<open>in_waiting\<close> is \<open>0\<close>.
\<close>

datatype ser_event = RxLine string | RxFault

text \<open>
  \<open>self.points\<close> is a \<open>dict\<close> from the angle bin (a finite float) to the pair
  \<open>(distance, confidence)\<close>. A \<open>dict\<close> keeps its keys in the order of their first insertion
  and \<open>d[k] = v\<close> on a key already present replaces the value in place: an association
  list under \<open>AList.update\<close>.
\<close>

record visualiser =
  port :: string
  baud :: int
  ser :: "ser_event list option"
  points :: "(rat \<times> int \<times> int) list"
  max_distance :: int
  point_count :: int

text \<open>\<open>LidarVisualiser.__init__\<close>\<close>

definition init :: "string \<Rightarrow> int \<Rightarrow> visualiser" where
  "init p b =
     \<lparr>port = p, baud = b, ser = None, points = [], max_distance = 8000, point_count = 0\<rparr>"

text \<open>
  The first four statements of the inner \<open>try\<close> of \<open>read_points\<close>, on the three fields
  of a line: the three conversions and the quantisation \<open>round(angle * 2) / 2\<close>. \<open>Inl e\<close>:
  the exception \<open>e\<close> was raised.
\<close>

definition parse_fields :: "string \<Rightarrow> string \<Rightarrow> string \<Rightarrow> py_error + rat \<times> int \<times> int" where
  "parse_fields p0 p1 p2 =
     (case py_float p0 of Inl e \<Rightarrow> Inl e | Inr angle \<Rightarrow>
     (case py_int p1 of Inl e \<Rightarrow> Inl e | Inr distance \<Rightarrow>
     (case py_int p2 of Inl e \<Rightarrow> Inl e | Inr confidence \<Rightarrow>
     (case py_round (fl_mul angle (Finite 2)) of Inl e \<Rightarrow> Inl e | Inr n \<Rightarrow>
     (case int_truediv n 2 of Inl e \<Rightarrow> Inl e | Inr angle_bin \<Rightarrow>
        Inr (angle_bin, distance, confidence))))))"

text \<open>
  The whole body of the inner \<open>try\<close>: those statements, then the range check and the
  store. An exception can only come before the store.
\<close>

definition try_record :: "string \<Rightarrow> string \<Rightarrow> string \<Rightarrow> visualiser \<Rightarrow> py_error + visualiser" where
  "try_record p0 p1 p2 st =
     (case parse_fields p0 p1 p2 of
        Inl e \<Rightarrow> Inl e
      | Inr (angle_bin, distance, confidence) \<Rightarrow>
          if 0 \<le> distance \<and> distance \<le> max_distance st
          then Inr (st\<lparr>points := AList.update angle_bin (distance, confidence) (points st),
                        point_count := point_count st + 1\<rparr>)
          else Inr st)"

text \<open>
  One turn of the \<open>while\<close> loop after \<open>readline()\<close> and \<open>decode\<close>: \<open>(None, st')\<close> when the
  turn ends normally (by \<open>continue\<close> or at its end), \<open>(Some e, st')\<close> when the exception \<open>e\<close>
  leaves the inner \<open>try\<close>, whose handler catches \<open>ValueError\<close> only.
\<close>

definition process_line :: "string \<Rightarrow> visualiser \<Rightarrow> py_error option \<times> visualiser" where
  "process_line raw st =
     (let line = strip raw
      in if line = [] \<or> startswith line ''LD06'' then (None, st)
         else (case split (CHR '','') line of
                 [p0, p1, p2] \<Rightarrow>
                   (case try_record p0 p1 p2 st of
                      Inr st' \<Rightarrow> (None, st')
                    | Inl ValueError \<Rightarrow> (None, st)
                    | Inl e \<Rightarrow> (Some e, st))
               | _ \<Rightarrow> (None, st)))"

text \<open>The \<open>while\<close> loop: the exception that ended it, if any, the events left, the state.\<close>

fun read_loop :: "ser_event list \<Rightarrow> visualiser \<Rightarrow> py_error option \<times> ser_event list \<times> visualiser" where
  "read_loop [] st = (None, [], st)"
| "read_loop (RxFault # evs) st = (Some SerialException, evs, st)"
| "read_loop (RxLine raw # evs) st =
     (case process_line raw st of
        (None, st') \<Rightarrow> read_loop evs st'
      | (Some e, st') \<Rightarrow> (Some e, evs, st'))"

datatype outcome = Returned | Raised py_error

text \<open>
  \<open>LidarVisualiser.read_points\<close>: nothing without a handle; otherwise the loop, inside a
  \<open>try\<close> whose handler catches \<open>serial.SerialException\<close> only.
\<close>

definition read_points :: "visualiser \<Rightarrow> outcome \<times> visualiser" where
  "read_points st =
     (case ser st of
        None \<Rightarrow> (Returned, st)
      | Some evs \<Rightarrow>
          (case read_loop evs st of
             (None, evs', st') \<Rightarrow> (Returned, st'\<lparr>ser := Some evs'\<rparr>)
           | (Some SerialException, evs', st') \<Rightarrow> (Returned, st'\<lparr>ser := Some evs'\<rparr>)
           | (Some e, evs', st') \<Rightarrow> (Raised e, st'\<lparr>ser := Some evs'\<rparr>)))"

text \<open>
  \<open>math.radians(x)\<close> is the float product of \<open>x\<close> and the constant \<open>pi / 180.0\<close>, where \<open>pi\<close>
  is the float nearest to \<open>\<pi>\<close>.
\<close>

definition float_pi :: rat where
  "float_pi = 884279719003555 / 281474976710656"

definition radians :: "rat \<Rightarrow> pyfloat" where
  "radians x = fl_mul (Finite x) (b64_round (float_pi / 180))"

text \<open>
  The \<open>for\<close> loop of \<open>get_polar_data\<close> over \<open>self.points.items()\<close>, appending to the three
  lists.
\<close>

fun polar_loop ::
  "(rat \<times> int \<times> int) list \<Rightarrow> pyfloat list \<Rightarrow> int list \<Rightarrow> int list
     \<Rightarrow> pyfloat list \<times> int list \<times> int list" where
  "polar_loop [] angles distances confidences = (angles, distances, confidences)"
| "polar_loop ((angle, dist', conf) # items) angles distances confidences =
     polar_loop items (angles @ [radians angle]) (distances @ [dist']) (confidences @ [conf])"

text \<open>
  \<open>LidarVisualiser.get_polar_data\<close>: the three arrays (as lists) and the visualiser after
  the call.
\<close>

definition get_polar_data :: "visualiser \<Rightarrow> (pyfloat list \<times> int list \<times> int list) \<times> visualiser" where
  "get_polar_data st =
     (if points st = [] then (([], [], []), st)
      else (polar_loop (points st) [] [] [], st))"

section \<open>The tick: \<open>update\<close>\<close>

text \<open>
  Of the polar axes \<open>ax\<close> the model keeps the radial limit, which \<open>ax.get_rmax()\<close> returns
  and \<open>ax.set_rlim(0, top)\<close> sets, and of \<open>count_text\<close> the number it shows. \<open>main\<close> starts
  the axes with \<open>ax.set_rlim(0, 4000)\<close>.
\<close>

record plot =
  rmax :: rat
  count_text :: nat

definition initial_plot :: plot where
  "initial_plot = \<lparr>rmax = 4000, count_text = 0\<rparr>"

text \<open>numpy turns an integer into a \<open>float64\<close> to compare it or multiply it with a float.\<close>

definition np_float64 :: "int \<Rightarrow> pyfloat" where
  "np_float64 n = b64_round (of_int n)"

text \<open>\<open>np.max\<close> of an integer array; it raises \<open>ValueError\<close> on an empty one.\<close>

fun np_max :: "int list \<Rightarrow> py_error + int" where
  "np_max [] = Inl ValueError"
| "np_max (x # xs) = Inr (fold max xs x)"

text \<open>\<open>ax.set_rlim(0, top)\<close>: matplotlib refuses a limit that is NaN or infinite.\<close>

definition set_rlim :: "pyfloat \<Rightarrow> plot \<Rightarrow> py_error + plot" where
  "set_rlim top' ax = (case top' of Finite r \<Rightarrow> Inr (ax\<lparr>rmax := r\<rparr>) | _ \<Rightarrow> Inl ValueError)"

text \<open>
  The auto-scaling step of \<open>update\<close>:
  \<^verbatim>\<open>max_dist = np.max(distances)\<close>,
  \<^verbatim>\<open>if max_dist > ax.get_rmax(): ax.set_rlim(0, min(max_dist * 1.1, 8000))\<close>.
\<close>

definition auto_scale :: "int list \<Rightarrow> plot \<Rightarrow> py_error + plot" where
  "auto_scale distances ax =
     (case np_max distances of
        Inl e \<Rightarrow> Inl e
      | Inr max_dist \<Rightarrow>
          if fl_less (Finite (rmax ax)) (np_float64 max_dist)
          then set_rlim (py_min (fl_mul (np_float64 max_dist) (b64_round (11 / 10))) (Finite 8000)) ax
          else Inr ax)"

text \<open>
  \<open>update(frame)\<close>, with the variables \<open>ax\<close> and \<open>vis\<close> of the enclosing \<open>main\<close> as arguments
  and results. The calls that only draw (\<open>set_offsets\<close>, \<open>set_array\<close>) are left out.
\<close>

definition update :: "plot \<Rightarrow> visualiser \<Rightarrow> outcome \<times> plot \<times> visualiser" where
  "update ax vis =
     (case read_points vis of
        (Raised e, vis1) \<Rightarrow> (Raised e, ax, vis1)
      | (Returned, vis1) \<Rightarrow>
          (case get_polar_data vis1 of
             ((angles, distances, confidences), vis2) \<Rightarrow>
               (case (if 0 < length angles then auto_scale distances ax else Inr ax) of
                  Inl e \<Rightarrow> (Raised e, ax, vis2)
                | Inr ax1 \<Rightarrow> (Returned, ax1\<lparr>count_text := length (points vis2)\<rparr>, vis2))))"

text \<open>
  The animation timer calls \<open>update\<close> again and again. Before each call the serial line
  has delivered some more events; a tick that raised does not undo what it changed.
\<close>

definition arrive :: "ser_event list \<Rightarrow> visualiser \<Rightarrow> visualiser" where
  "arrive evs vis =
     (case ser vis of None \<Rightarrow> vis | Some pending \<Rightarrow> vis\<lparr>ser := Some (pending @ evs)\<rparr>)"

fun run_ticks :: "ser_event list list \<Rightarrow> plot \<Rightarrow> visualiser \<Rightarrow> plot \<times> visualiser" where
  "run_ticks [] ax vis = (ax, vis)"
| "run_ticks (evs # ticks) ax vis =
     (case update ax (arrive evs vis) of (out, ax', vis') \<Rightarrow> run_ticks ticks ax' vis')"

section \<open>Notions used to state the properties\<close>

text \<open>
  The measurement that a line stores under the distance limit \<open>maxd\<close>, read off a run of
  \<open>process_line\<close> on an empty point map: \<open>Some (angle_bin, distance, confidence)\<close>, or
  \<open>None\<close> when the line stores nothing.
\<close>

definition measurement :: "int \<Rightarrow> string \<Rightarrow> (rat \<times> int \<times> int) option" where
  "measurement maxd raw =
     (case points (snd (process_line raw
        \<lparr>port = [], baud = 0, ser = None, points = [], max_distance = maxd, point_count = 0\<rparr>)) of
        [] \<Rightarrow> None
      | kv # kvs \<Rightarrow> Some kv)"

text \<open>The text lines among the events of a read pass.\<close>

fun rx_lines :: "ser_event list \<Rightarrow> string list" where
  "rx_lines [] = []"
| "rx_lines (RxLine raw # evs) = raw # rx_lines evs"
| "rx_lines (RxFault # evs) = rx_lines evs"


text \<open>A multiple of \<open>0.5\<close>; one of the 720 bins from \<open>0.0\<close> to \<open>359.5\<close>.\<close>

definition half_step :: "rat \<Rightarrow> bool" where
  "half_step k = (of_int \<lfloor>2 * k\<rfloor> = 2 * k)"

definition legal_bin :: "rat \<Rightarrow> bool" where
  "legal_bin k = (half_step k \<and> 0 \<le> k \<and> k < 360)"

text \<open>
  A rotation reported in half degrees: the 720 lines from \<open>000.0,1000,200\<close> to
  \<open>359.5,1000,200\<close>, followed by one more reading at \<open>359.8\<close> degrees.
\<close>

definition digit_char :: "int \<Rightarrow> char" where
  "digit_char d = ''0123456789'' ! nat d"

definition half_degree_line :: "int \<Rightarrow> string" where
  "half_degree_line n =
     [digit_char (n div 200), digit_char (n div 20 mod 10), digit_char (n div 2 mod 10),
      CHR ''.'', digit_char (5 * (n mod 2))]
     @ '',1000,200''"

definition overfull_rotation :: "ser_event list" where
  "overfull_rotation = map (RxLine \<circ> half_degree_line) [0..719] @ [RxLine ''359.8,1000,200'']"

section \<open>Facts about the float model\<close>

lemma b64_huge_numeral [code]:
  "b64_huge = 179769313486231590772930519078902473361797697894230657273430081157732675805500963132708477322407536021120113879871393357658789768814416622492847430639474124377767893424865485276302219601246094119453082952085005768838150682342462881473913110540827237163350510684586298239947245938479716304835356329624224137216"
  by (simp add: b64_huge_def)

lemma round_half_even_of_int [simp]: "round_half_even (of_int j) = j"
  by (simp add: round_half_even_def)

lemma round_half_even_ge:
  assumes "of_int j \<le> x"
  shows "j \<le> round_half_even x"
proof -
  from assms have "j \<le> \<lfloor>x\<rfloor>" by (simp add: le_floor_iff)
  then show ?thesis by (auto simp: round_half_even_def Let_def)
qed

lemma round_half_even_le:
  "of_int (round_half_even x) \<le> x + 1"
proof -
  have "of_int \<lfloor>x\<rfloor> \<le> x" by simp
  moreover have "(of_int (round_half_even x) :: rat) \<le> of_int \<lfloor>x\<rfloor> + 1"
    by (simp add: round_half_even_def Let_def)
  ultimately show ?thesis by linarith
qed

lemma half_stepI: "2 * k = of_int z \<Longrightarrow> half_step k"
  by (simp add: half_step_def)

lemma half_step_uminus: "half_step k \<Longrightarrow> half_step (- k)"
proof -
  assume "half_step k"
  then have "2 * k = of_int \<lfloor>2 * k\<rfloor>" unfolding half_step_def by (rule sym)
  then have "2 * (- k) = of_int (- \<lfloor>2 * k\<rfloor>)" by simp
  then show ?thesis by (rule half_stepI)
qed

lemma half_step_half: "half_step (of_int m / 2)"
  by (rule half_stepI [of _ m]) simp

lemma half_step_int: "half_step (of_int m)"
  by (rule half_stepI [of _ "2 * m"]) simp

lemma ilog2_lower:
  assumes "0 < a"
  shows "2 powi (ilog2 a) \<le> a"
proof -
  obtain n d where nd: "quotient_of a = (n, d)" by (cases "quotient_of a")
  then have d: "0 < d" by (rule quotient_of_denom_pos)
  from nd have a: "a = of_int n / of_int d" by (rule quotient_of_div)
  with assms d have n: "0 < n" by (simp add: zero_less_divide_iff)
  let ?k = "bitlen n - bitlen d"
  have bn: "1 \<le> bitlen n" using n bitlen_eq_zero_iff [of n] bitlen_nonneg [of n] by linarith
  have bd: "1 \<le> bitlen d" using d bitlen_eq_zero_iff [of d] bitlen_nonneg [of d] by linarith
  have "2 powi (?k - 1) \<le> a"
  proof -
    from bitlen_bounds [OF n] have "(2::int) ^ nat (bitlen n - 1) \<le> n" by simp
    then have "(of_int ((2::int) ^ nat (bitlen n - 1)) :: rat) \<le> of_int n" by (simp only: of_int_le_iff)
    then have 1: "(2::rat) powi (bitlen n - 1) \<le> of_int n"
      using bn by (simp add: power_int_nonneg_exp)
    from bitlen_bounds [OF d] have "d < 2 ^ nat (bitlen d)" by simp
    then have "(of_int d :: rat) < of_int ((2::int) ^ nat (bitlen d))" by (simp only: of_int_less_iff)
    then have 2: "of_int d < (2::rat) powi (bitlen d)"
      using bd by (simp add: power_int_nonneg_exp)
    have "(2::rat) powi (?k - 1) = 2 powi (bitlen n - 1) / 2 powi (bitlen d)"
      by (simp add: power_int_diff)
    also have "\<dots> \<le> of_int n / 2 powi (bitlen d)"
      using 1 by (simp add: divide_right_mono)
    also have "\<dots> \<le> of_int n / of_int d"
      using 2 d n by (intro divide_left_mono) (simp_all add: less_imp_le)
    finally show ?thesis by (simp add: a)
  qed
  then show ?thesis by (simp add: ilog2_def nd Let_def)
qed

lemma ilog2_less:
  assumes "0 < a" and "a < 2 powi m"
  shows "ilog2 a < m"
proof (rule ccontr)
  assume "\<not> ilog2 a < m"
  then have "m \<le> ilog2 a" by simp
  then have "(2::rat) powi m \<le> 2 powi (ilog2 a)" by (intro power_int_increasing) simp_all
  with ilog2_lower [OF assms(1)] assms(2) show False by simp
qed

lemma powi_neg: "k \<le> 0 \<Longrightarrow> (2::rat) powi k = 1 / 2 ^ nat (- k)"
  using power_int_minus_divide [of "2::rat" "- k"] by (simp add: power_int_nonneg_exp)

lemma b64_huge_gt: "(2::rat) ^ 53 + 1 < b64_huge"
  by (simp add: b64_huge_def)

text \<open>A value whose quotient by the spacing is an integer is its own rounding.\<close>

lemma b64_round_exact:
  assumes "\<bar>q\<bar> / 2 powi (max (ilog2 \<bar>q\<bar>) (- 1022) - 52) = of_int j"
    and "\<bar>q\<bar> < b64_huge"
  shows "b64_round q = Finite q"
proof (cases "q = 0")
  case True
  then show ?thesis by (simp add: b64_round_def)
next
  case False
  let ?u = "(2::rat) powi (max (ilog2 \<bar>q\<bar>) (- 1022) - 52)"
  have u: "?u \<noteq> 0" by simp
  have v: "of_int (round_half_even (\<bar>q\<bar> / ?u)) * ?u = \<bar>q\<bar>"
    using u by (simp only: assms(1) round_half_even_of_int) (simp add: assms(1) [symmetric])
  show ?thesis
    unfolding b64_round_def Let_def v using False assms(2) by (simp add: abs_if)
qed

lemma b64_round_half_step:
  assumes "half_step q" and "\<bar>q\<bar> < 2 ^ 52"
  shows "b64_round q = Finite q"
proof (cases "q = 0")
  case True
  then show ?thesis by (simp add: b64_round_def)
next
  case False
  let ?a = "\<bar>q\<bar>"
  let ?e = "max (ilog2 ?a) (- 1022)"
  from False have pos: "0 < ?a" by simp
  from assms(2) have "?a < 2 powi 52" by simp
  from ilog2_less [OF pos this] have e: "?e \<le> 51" by simp
  have hs: "half_step ?a"
    using assms(1) half_step_uminus [of q] by (cases "q < 0") (simp_all add: abs_if)
  then obtain z where z: "2 * ?a = of_int z" unfolding half_step_def by metis
  have "(2::rat) powi (?e - 52) = 1 / 2 ^ nat (52 - ?e)"
    using e powi_neg [of "?e - 52"] by simp
  also have "\<dots> = 1 / (2 * 2 ^ nat (51 - ?e))"
  proof -
    from e have "nat (52 - ?e) = Suc (nat (51 - ?e))" by linarith
    then show ?thesis by simp
  qed
  finally have u: "(2::rat) powi (?e - 52) = 1 / (2 * 2 ^ nat (51 - ?e))" .
  have "?a / 2 powi (?e - 52) = (2 * ?a) * 2 ^ nat (51 - ?e)"
    by (simp only: u) simp
  also have "\<dots> = of_int (z * 2 ^ nat (51 - ?e))" by (simp only: z) simp
  finally have ex: "?a / 2 powi (?e - 52) = of_int (z * 2 ^ nat (51 - ?e))" .
  have "?a < b64_huge" using assms(2) by (simp add: b64_huge_def)
  with ex show ?thesis by (rule b64_round_exact)
qed

lemma div_mult_self_rat: "u \<noteq> 0 \<Longrightarrow> a / u * u = (a::rat)"
  by simp

text \<open>Whatever is divided by two, the correctly rounded quotient is a multiple of one half.\<close>

lemma int_truediv_2_half_step:
  assumes "int_truediv n 2 = Inr k"
  shows "half_step k"
proof (cases "n = 0")
  case True
  with assms have "k = 0" by (simp add: int_truediv_def b64_round_def)
  then show ?thesis by (simp add: half_step_def)
next
  case False
  let ?q = "of_int n / 2 :: rat"
  let ?a = "\<bar>?q\<bar>"
  let ?e = "max (ilog2 ?a) (- 1022)"
  let ?u = "(2::rat) powi (?e - 52)"
  let ?r = "round_half_even (?a / ?u)"
  from False have q: "?q \<noteq> 0" by simp
  from assms have "b64_round ?q = Finite k"
    by (simp add: int_truediv_def split: pyfloat.splits)
  then have k: "k = (if ?q < 0 then - (of_int ?r * ?u) else of_int ?r * ?u)"
    using q by (simp add: b64_round_def Let_def split: if_splits)
  have a2: "2 * ?a = of_int \<bar>n\<bar>" by simp
  have "half_step (of_int ?r * ?u)"
  proof (cases "51 \<le> ?e")
    case True
    have "(2::rat) powi (?e - 51) = 2 powi (?e - 52) * 2"
      using power_int_add_1 [of "2::rat" "?e - 52"] by simp
    then have "2 * (of_int ?r * ?u) = of_int ?r * 2 powi (?e - 51)" by simp
    also have "\<dots> = of_int (?r * 2 ^ nat (?e - 51))"
      using True by (simp add: power_int_nonneg_exp)
    finally show ?thesis by (rule half_stepI)
  next
    case False
    then have e: "?e \<le> 51" by simp
    have "?u = 1 / 2 ^ nat (52 - ?e)"
      using e powi_neg [of "?e - 52"] by simp
    also have "\<dots> = 1 / (2 * 2 ^ nat (51 - ?e))"
    proof -
      from e have "nat (52 - ?e) = Suc (nat (51 - ?e))" by linarith
      then show ?thesis by simp
    qed
    finally have u: "?u = 1 / (2 * 2 ^ nat (51 - ?e))" .
    have "?a / ?u = (2 * ?a) * 2 ^ nat (51 - ?e)"
      by (simp only: u) simp
    also have "\<dots> = of_int (\<bar>n\<bar> * 2 ^ nat (51 - ?e))" by (simp only: a2) simp
    finally have ex: "?a / ?u = of_int (\<bar>n\<bar> * 2 ^ nat (51 - ?e))" .
    have u0: "?u \<noteq> 0" by simp
    have "of_int ?r * ?u = of_int (\<bar>n\<bar> * 2 ^ nat (51 - ?e)) * ?u"
      by (simp only: ex round_half_even_of_int)
    also have "\<dots> = (?a / ?u) * ?u" by (simp only: ex)
    also have "\<dots> = ?a" using u0 by (rule div_mult_self_rat)
    finally have "of_int ?r * ?u = ?a" .
    then have "2 * (of_int ?r * ?u) = of_int \<bar>n\<bar>" using a2 by simp
    then show ?thesis by (rule half_stepI)
  qed
  then show ?thesis using k half_step_uminus by auto
qed

text \<open>Rounding does not fall below an integer that the value has reached.\<close>

lemma b64_round_ge_int:
  assumes "0 < m" and "of_int m \<le> q" and "q < 2 ^ 53"
  shows "\<exists>p. b64_round q = Finite p \<and> of_int m \<le> p"
proof -
  let ?e = "max (ilog2 \<bar>q\<bar>) (- 1022)"
  let ?u = "(2::rat) powi (?e - 52)"
  let ?r = "round_half_even (\<bar>q\<bar> / ?u)"
  from assms(1,2) have pos: "0 < q" by (simp add: less_le_trans [of 0 "of_int m" q])
  then have aq: "\<bar>q\<bar> = q" by simp
  from assms(3) have "\<bar>q\<bar> < 2 powi 53" using aq by simp
  from ilog2_less [OF _ this] pos have e: "?e \<le> 52" by simp
  have u: "?u = 1 / 2 ^ nat (52 - ?e)"
    using e powi_neg [of "?e - 52"] by simp
  have u0: "0 < ?u" by simp
  have u1: "?u \<le> 1" unfolding u by simp
  have "of_int (m * 2 ^ nat (52 - ?e)) = of_int m / ?u" by (simp only: u) simp
  also have "\<dots> \<le> \<bar>q\<bar> / ?u"
    using assms(2) u0 by (simp only: aq) (rule divide_right_mono, simp_all)
  finally have "m * 2 ^ nat (52 - ?e) \<le> ?r" by (rule round_half_even_ge)
  then have "(of_int (m * 2 ^ nat (52 - ?e)) :: rat) \<le> of_int ?r" by (simp only: of_int_le_iff)
  then have le: "of_int (m * 2 ^ nat (52 - ?e)) * ?u \<le> of_int ?r * ?u"
    using u0 by (intro mult_right_mono) simp_all
  have eq: "of_int (m * 2 ^ nat (52 - ?e)) * ?u = of_int m" by (simp only: u) simp
  have "of_int m = of_int (m * 2 ^ nat (52 - ?e)) * ?u" by (simp only: eq)
  also note le
  finally have lo: "of_int m \<le> of_int ?r * ?u" .
  have ra: "of_int ?r \<le> \<bar>q\<bar> / ?u + 1" by (rule round_half_even_le)
  have rb: "0 \<le> ?u" by simp
  from ra rb have "of_int ?r * ?u \<le> (\<bar>q\<bar> / ?u + 1) * ?u" by (rule mult_right_mono)
  also have "\<dots> = \<bar>q\<bar> + ?u" using u0 by (simp add: distrib_right)
  also have "\<dots> < 2 ^ 53 + 1" using assms(3) u1 aq by linarith
  finally have hi: "of_int ?r * ?u < b64_huge" using b64_huge_gt by linarith
  have "b64_round q = Finite (of_int ?r * ?u)"
    using pos hi unfolding b64_round_def Let_def by (simp add: not_le)
  with lo show ?thesis by blast
qed

lemma np_float64_exact:
  "\<bar>m\<bar> < 2 ^ 52 \<Longrightarrow> np_float64 m = Finite (of_int m)"
  unfolding np_float64_def
  by (intro b64_round_half_step half_step_int) (simp flip: of_int_abs)

lemma float_1_1: "b64_round (11 / 10) = Finite (2476979795053773 / 2251799813685248)"
  by code_simp

text \<open>Under the range filter the new limit lies between the largest distance and 8000.\<close>

lemma new_limit_bounds:
  assumes "0 \<le> m" and "m \<le> 8000"
  shows "\<exists>p. py_min (fl_mul (np_float64 m) (b64_round (11 / 10))) (Finite 8000) = Finite p
             \<and> of_int m \<le> p \<and> p \<le> 8000"
proof (cases "m = 0")
  case True
  have z: "b64_round 0 = Finite 0" by (simp add: b64_round_def)
  from True show ?thesis
    by (simp add: np_float64_def float_1_1 fl_mul_def z py_min_def fl_less_def)
next
  case False
  with assms have m: "0 < m" by simp
  from assms have "np_float64 m = Finite (of_int m)" by (intro np_float64_exact) simp
  then have mul: "fl_mul (np_float64 m) (b64_round (11 / 10))
      = b64_round (of_int m * (2476979795053773 / 2251799813685248))"
    by (simp add: float_1_1 fl_mul_def)
  have "(of_int m :: rat) \<le> of_int m * (2476979795053773 / 2251799813685248)"
    using m by simp
  moreover have "(of_int m :: rat) * (2476979795053773 / 2251799813685248) < 2 ^ 53"
  proof -
    have "(of_int m :: rat) \<le> 8000" using assms(2) by simp
    then have "(of_int m :: rat) * (2476979795053773 / 2251799813685248) \<le> 8000 * 2" 
      by (intro mult_mono) simp_all
    then show ?thesis by simp
  qed
  ultimately obtain p where p: "b64_round (of_int m * (2476979795053773 / 2251799813685248)) = Finite p"
    "of_int m \<le> p"
    using b64_round_ge_int [OF m] by blast
  have "(of_int m :: rat) \<le> 8000" using assms(2) by simp
  with p show ?thesis
    by (simp add: mul py_min_def fl_less_def)
qed

section \<open>The snapshot: \<open>get_polar_data\<close>\<close>



text \<open>
  C6. A call of \<open>get_polar_data\<close> leaves the visualiser, and so the point map, as it was,
  and a second call right after the first returns the same three sequences, in the same
  order.
\<close>

theorem get_polar_data_pure_idempotent:
  "snd (get_polar_data st) = st \<and>
   fst (get_polar_data (snd (get_polar_data st))) = fst (get_polar_data st)"
  by (simp add: get_polar_data_def)



text \<open>
  C8. On an empty point map \<open>get_polar_data\<close> returns three empty sequences; it returns
  (the model has no exception on this path) and changes nothing.
\<close>

theorem get_polar_data_empty:
  "get_polar_data (st\<lparr>points := []\<rparr>) = (([], [], []), st\<lparr>points := []\<rparr>)"
  by (simp add: get_polar_data_def)

section \<open>The read pass: \<open>read_points\<close>\<close>

subsection \<open>What one line does to the state\<close>

lemma process_line_state:
  "snd (process_line raw st) =
     (case measurement (max_distance st) raw of
        None \<Rightarrow> st
      | Some (k, v) \<Rightarrow> st\<lparr>points := AList.update k v (points st), point_count := point_count st + 1\<rparr>)"
  by (auto simp: process_line_def measurement_def try_record_def Let_def
      split: list.splits sum.splits py_error.splits if_splits prod.splits)

lemma process_line_raised:
  "fst (process_line raw st) = Some e \<Longrightarrow> measurement maxd raw = None"
  by (auto simp: process_line_def measurement_def try_record_def Let_def
      split: list.splits sum.splits py_error.splits if_splits prod.splits)

lemma process_line_max_distance:
  "max_distance (snd (process_line raw st)) = max_distance st"
  by (simp add: process_line_state split: option.splits prod.splits)


lemma measurement_half_step:
  "measurement maxd raw = Some (k, v) \<Longrightarrow> half_step k"
  by (auto simp: process_line_def measurement_def try_record_def parse_fields_def Let_def
      split: list.splits sum.splits py_error.splits if_splits prod.splits
      dest: int_truediv_2_half_step)



lemma process_line_keys:
  assumes "list_all Q (map fst (points st))"
    and "\<And>k v. measurement (max_distance st) raw = Some (k, v) \<Longrightarrow> Q k"
  shows "list_all Q (map fst (points (snd (process_line raw st))))"
proof (cases "measurement (max_distance st) raw")
  case None
  then show ?thesis using assms(1) by (simp add: process_line_state)
next
  case (Some kv)
  obtain k v where kv: "kv = (k, v)" by (cases kv)
  from assms(2) Some kv have "Q k" by simp
  with assms(1) show ?thesis
    by (simp add: process_line_state Some kv AList.update_keys)
qed

lemma process_line_distinct:
  "distinct (map fst (points st)) \<Longrightarrow> distinct (map fst (points (snd (process_line raw st))))"
  by (simp add: process_line_state AList.distinct_update split: option.splits prod.splits)

subsection \<open>Folding stores into the point map\<close>

lemma fold_update_map_of:
  "map_of (fold (\<lambda>(k, v). AList.update k v) recs al) = map_of al ++ map_of (rev recs)"
proof (induction recs arbitrary: al)
  case Nil
  then show ?case by simp
next
  case (Cons r recs)
  obtain k v where r: "r = (k, v)" by (cases r)
  have "map_of (fold (\<lambda>(k, v). AList.update k v) (r # recs) al)
        = map_of (AList.update k v al) ++ map_of (rev recs)"
    using Cons.IH [of "AList.update k v al"] by (simp add: r)
  also have "\<dots> = map_of al ++ map_of (rev (r # recs))"
    by (rule ext) (simp add: r AList.update_conv' map_add_def split: option.splits)
  finally show ?case .
qed

lemma fold_update_distinct:
  "distinct (map fst al) \<Longrightarrow> distinct (map fst (fold (\<lambda>(k, v). AList.update k v) recs al))"
  by (induction recs arbitrary: al) (auto simp: AList.distinct_update)

lemma fold_update_keys:
  "fst ` set (fold (\<lambda>(k, v). AList.update k v) recs al) = fst ` set al \<union> fst ` set recs"
proof (induction recs arbitrary: al)
  case Nil
  then show ?case by simp
next
  case (Cons r recs)
  obtain k v where r: "r = (k, v)" by (cases r)
  have "fst ` set (fold (\<lambda>(k, v). AList.update k v) (r # recs) al)
        = fst ` set (AList.update k v al) \<union> fst ` set recs"
    using Cons.IH [of "AList.update k v al"] by (simp add: r)
  also have "\<dots> = fst ` set al \<union> fst ` set (r # recs)"
    unfolding AList.dom_update by (auto simp: r)
  finally show ?case .
qed

lemma read_loop_accepts:
  "\<forall>l\<in>set ls. measurement (max_distance st) l \<noteq> None \<Longrightarrow>
   \<exists>st'. read_loop (map RxLine ls) st = (None, [], st') \<and>
         points st' = fold (\<lambda>(k, v). AList.update k v)
                        (List.map_filter (measurement (max_distance st)) ls) (points st)"
proof (induction ls arbitrary: st)
  case Nil
  then show ?case by (simp add: List.map_filter_simps)
next
  case (Cons l ls)
  from Cons.prems obtain k v where m: "measurement (max_distance st) l = Some (k, v)"
    by (cases "measurement (max_distance st) l") auto
  obtain e s where pl: "process_line l st = (e, s)" by (cases "process_line l st")
  have e: "e = None"
  proof (cases e)
    case (Some x)
    with pl have "fst (process_line l st) = Some x" by simp
    from process_line_raised [OF this, of "max_distance st"] m show ?thesis by simp
  qed simp
  have s: "s = st\<lparr>points := AList.update k v (points st), point_count := point_count st + 1\<rparr>"
    using process_line_state [of l st] pl m by simp
  then have md: "max_distance s = max_distance st" by simp
  from Cons.prems have "\<forall>l\<in>set ls. measurement (max_distance s) l \<noteq> None" by (simp add: md)
  from Cons.IH [OF this] obtain st' where
    "read_loop (map RxLine ls) s = (None, [], st')"
    "points st' = fold (\<lambda>(k, v). AList.update k v)
                    (List.map_filter (measurement (max_distance s)) ls) (points s)"
    by blast
  then show ?case using pl e m by (simp add: md s List.map_filter_simps)
qed

lemma map_filter_map_Some:
  "(\<And>x. x \<in> set xs \<Longrightarrow> f (g x) = Some (h x)) \<Longrightarrow> List.map_filter f (map g xs) = map h xs"
  by (induction xs) (simp_all add: List.map_filter_simps)

lemma map_filter_append:
  "List.map_filter f (xs @ ys) = List.map_filter f xs @ List.map_filter f ys"
  by (simp add: List.map_filter_def)

subsection \<open>Invariants of a read pass\<close>

lemma read_loop_invariant_on:
  assumes "P st" and "\<And>raw s. raw \<in> set (rx_lines evs) \<Longrightarrow> P s \<Longrightarrow> P (snd (process_line raw s))"
  shows "P (snd (snd (read_loop evs st)))"
  using assms
proof (induction evs arbitrary: st)
  case Nil
  then show ?case by simp
next
  case (Cons ev evs)
  show ?case
  proof (cases ev)
    case (RxLine raw)
    obtain e s where pl: "process_line raw st = (e, s)" by (cases "process_line raw st")
    from Cons.prems(2) [of raw st] Cons.prems(1) pl RxLine have "P s" by simp
    moreover have "P (snd (process_line raw' s'))" if "raw' \<in> set (rx_lines evs)" "P s'" for raw' s'
      using Cons.prems(2) [of raw' s'] that RxLine by simp
    ultimately have "P (snd (snd (read_loop evs s)))" by (rule Cons.IH)
    then show ?thesis using pl RxLine \<open>P s\<close> by (cases e) simp_all
  next
    case RxFault
    then show ?thesis using Cons.prems(1) by simp
  qed
qed

lemma read_points_invariant_on:
  assumes "P st"
    and "\<And>evs raw s. ser st = Some evs \<Longrightarrow> raw \<in> set (rx_lines evs) \<Longrightarrow> P s
           \<Longrightarrow> P (snd (process_line raw s))"
    and "\<And>s x. P s \<Longrightarrow> P (s\<lparr>ser := x\<rparr>)"
  shows "P (snd (read_points st))"
proof (cases "ser st")
  case None
  then show ?thesis using assms(1) by (simp add: read_points_def)
next
  case (Some evs)
  obtain e evs' s where rl: "read_loop evs st = (e, evs', s)" by (cases "read_loop evs st")
  have "P (snd (snd (read_loop evs st)))"
    using assms(1) assms(2) [OF Some] by (rule read_loop_invariant_on)
  with rl have "P s" by simp
  then have "P (s\<lparr>ser := Some evs'\<rparr>)" by (rule assms(3))
  then show ?thesis using Some rl
    by (simp add: read_points_def split: option.splits py_error.splits)
qed

lemma read_loop_invariant:
  assumes "P st" and "\<And>raw s. P s \<Longrightarrow> P (snd (process_line raw s))"
  shows "P (snd (snd (read_loop evs st)))"
  using assms(1)
proof (induction evs arbitrary: st)
  case Nil
  then show ?case by simp
next
  case (Cons ev evs)
  show ?case
  proof (cases ev)
    case (RxLine raw)
    obtain e s where pl: "process_line raw st = (e, s)" by (cases "process_line raw st")
    from assms(2) [OF Cons.prems, of raw] pl have "P s" by simp
    then show ?thesis using Cons.IH [of s] pl RxLine by (cases e) simp_all
  next
    case RxFault
    then show ?thesis using Cons.prems by simp
  qed
qed

lemma read_points_invariant:
  assumes "P st" and "\<And>raw s. P s \<Longrightarrow> P (snd (process_line raw s))"
    and "\<And>s x. P s \<Longrightarrow> P (s\<lparr>ser := x\<rparr>)"
  shows "P (snd (read_points st))"
proof (cases "ser st")
  case None
  then show ?thesis using assms(1) by (simp add: read_points_def)
next
  case (Some evs)
  obtain e evs' s where rl: "read_loop evs st = (e, evs', s)" by (cases "read_loop evs st")
  from read_loop_invariant [of P st evs, OF assms(1) assms(2)] rl have "P s" by simp
  then have "P (s\<lparr>ser := Some evs'\<rparr>)" by (rule assms(3))
  then show ?thesis using Some rl
    by (simp add: read_points_def split: option.splits py_error.splits)
qed

lemma legal_bins_bounded:
  assumes "distinct ks" and "list_all legal_bin ks"
  shows "length ks \<le> 720"
proof -
  have "set ks \<subseteq> (\<lambda>n. of_int n / 2) ` {0..719}"
  proof
    fix k assume "k \<in> set ks"
    with assms(2) have l: "legal_bin k" by (simp add: list_all_iff)
    then have hs: "half_step k" and r: "0 \<le> k" "k < 360"
      by (simp_all add: legal_bin_def)
    from hs have z: "2 * k = of_int \<lfloor>2 * k\<rfloor>"
      unfolding half_step_def by (rule sym)
    from r have "0 \<le> 2 * k" "2 * k < 720" by simp_all
    then have "0 \<le> \<lfloor>2 * k\<rfloor>" "\<lfloor>2 * k\<rfloor> < 720" by (simp_all add: floor_less_iff)
    moreover from z have "k = of_int \<lfloor>2 * k\<rfloor> / 2" by linarith
    ultimately show "k \<in> (\<lambda>n. of_int n / 2) ` {0..719}" by (intro image_eqI) auto
  qed
  then have "card (set ks) \<le> card ((\<lambda>n. of_int n / 2 :: rat) ` {0..719::int})"
    by (intro card_mono) simp_all
  also have "\<dots> \<le> card {0..719::int}" by (rule card_image_le) simp
  finally show ?thesis using assms(1) by (simp add: distinct_card)
qed

subsection \<open>A rotation reported in half degrees\<close>

lemma digit_char:
  assumes "0 \<le> d" and "d \<le> 9"
  shows "digit_char d \<in> set ''0123456789''" and "digit_val (digit_char d) = d"
proof -
  from assms have "d = 0 \<or> d = 1 \<or> d = 2 \<or> d = 3 \<or> d = 4 \<or> d = 5 \<or> d = 6 \<or> d = 7 \<or> d = 8 \<or> d = 9"
    by arith
  then show "digit_char d \<in> set ''0123456789''" and "digit_val (digit_char d) = d"
    by (elim disjE; simp add: digit_char_def digit_val_def)+
qed

lemma digit_facts:
  assumes "c \<in> set ''0123456789''"
  shows "is_digit c" and "\<not> isspace c" and "\<not> num_space c"
    and "c \<noteq> CHR '',''" and "c \<noteq> CHR ''_''" and "c \<noteq> CHR ''-''" and "c \<noteq> CHR ''+''"
    and "c \<noteq> CHR ''.''" and "c \<noteq> CHR ''L''" and "ascii_lower c = c"
  using assms
  by (auto simp: is_digit_def isspace_def num_space_def ascii_lower_def Let_def)

lemma py_float_3_1:
  assumes "a \<in> set ''0123456789''" "b \<in> set ''0123456789''" "c \<in> set ''0123456789''"
    "f \<in> set ''0123456789''"
  shows "py_float [a, b, c, CHR ''.'', f] =
     Inr (b64_round (of_int (1000 * digit_val a + 100 * digit_val b + 10 * digit_val c + digit_val f) / 10))"
proof -
  note fa = digit_facts [OF assms(1)] and fb = digit_facts [OF assms(2)]
    and fc = digit_facts [OF assms(3)] and ff = digit_facts [OF assms(4)]
  have ns: "num_strip [a, b, c, CHR ''.'', f] = [a, b, c, CHR ''.'', f]"
    using fa(3) ff(3) by (simp add: num_strip_def)
  have dot: "\<not> is_digit (CHR ''.'')" by (simp add: is_digit_def)
  have du: "drop_underscores (CHR 0x00) [a, b, c, CHR ''.'', f] = Some [a, b, c, CHR ''.'', f]"
    using fa(5) fb(5) fc(5) ff(5) by simp
  have ss: "split_sign [a, b, c, CHR ''.'', f] = (False, [a, b, c, CHR ''.'', f])"
    using fa(6,7) by simp
  have pe: "parse_exponent [] = Some 0" by (simp add: parse_exponent_def)
  have tw: "takeWhile is_digit [a, b, c, CHR ''.'', f] = [a, b, c]"
    "dropWhile is_digit [a, b, c, CHR ''.'', f] = [CHR ''.'', f]"
    "takeWhile is_digit [f] = [f]" "dropWhile is_digit [f] = []"
    using fa(1) fb(1) fc(1) ff(1) dot by simp_all
  have dv: "digits_val [a, b, c, f] = 1000 * digit_val a + 100 * digit_val b + 10 * digit_val c + digit_val f"
    by (simp add: digits_val_def)
  have pd: "parse_decimal [a, b, c, CHR ''.'', f] =
      Some (of_int (1000 * digit_val a + 100 * digit_val b + 10 * digit_val c + digit_val f) / 10)"
    unfolding parse_decimal_def Let_def tw using ff(1) by (simp add: pe dv)
  have lw: "map ascii_lower [a, b, c, CHR ''.'', f] \<noteq> ''inf''"
    "map ascii_lower [a, b, c, CHR ''.'', f] \<noteq> ''infinity''"
    "map ascii_lower [a, b, c, CHR ''.'', f] \<noteq> ''nan''"
    by simp_all
  show ?thesis
    unfolding py_float_def ns du using lw fa(6,7) by (simp add: pd Let_def)
qed

lemma digits_linear:
  "m = 2 * h + r \<Longrightarrow> h = 10 * t + d0 \<Longrightarrow> t = 10 * d2 + d1
   \<Longrightarrow> 1000 * d2 + 100 * d1 + 10 * d0 + 5 * r = 5 * (m::int)"
  by simp

lemma half_degree_digits:
  "1000 * (m div 200) + 100 * (m div 20 mod 10) + 10 * (m div 2 mod 10) + 5 * (m mod 2) = 5 * (m::int)"
proof (rule digits_linear)
  show "m = 2 * (m div 2) + m mod 2" by simp
  show "m div 2 = 10 * (m div 20) + m div 2 mod 10"
    using zdiv_zmult2_eq [of 10 m 2] by simp
  show "m div 20 = 10 * (m div 200) + m div 20 mod 10"
    using zdiv_zmult2_eq [of 10 m 20] by simp
qed

lemma half_degree_ranges:
  assumes "0 \<le> (m::int)" and "m \<le> 719"
  shows "0 \<le> m div 200" "m div 200 \<le> 9" "0 \<le> m div 20 mod 10" "m div 20 mod 10 \<le> 9"
    "0 \<le> m div 2 mod 10" "m div 2 mod 10 \<le> 9" "0 \<le> 5 * (m mod 2)" "5 * (m mod 2) \<le> 9"
proof -
  show "0 \<le> m div 200" using assms by simp
  have "m div 200 \<le> 719 div 200" using assms(2) by (intro zdiv_mono1) simp_all
  then show "m div 200 \<le> 9" by simp
  show "0 \<le> m div 20 mod 10" by simp
  have "m div 20 mod 10 < 10" by simp
  then show "m div 20 mod 10 \<le> 9" by linarith
  show "0 \<le> m div 2 mod 10" by simp
  have "m div 2 mod 10 < 10" by simp
  then show "m div 2 mod 10 \<le> 9" by linarith
  have "0 \<le> m mod 2" "m mod 2 < 2" by simp_all
  then show "0 \<le> 5 * (m mod 2)" "5 * (m mod 2) \<le> 9" by linarith+
qed

lemma parse_fields_half_degree:
  assumes "0 \<le> m" and "m \<le> 719"
  shows "parse_fields
           [digit_char (m div 200), digit_char (m div 20 mod 10), digit_char (m div 2 mod 10),
            CHR ''.'', digit_char (5 * (m mod 2))] ''1000'' ''200''
         = Inr (of_int m / 2, 1000, 200)"
proof -
  note r = half_degree_ranges [OF assms]
  note v = half_degree_digits [of m]
  note dc = digit_char [OF r(1,2)] digit_char [OF r(3,4)] digit_char [OF r(5,6)] digit_char [OF r(7,8)]
  have "py_float [digit_char (m div 200), digit_char (m div 20 mod 10), digit_char (m div 2 mod 10),
            CHR ''.'', digit_char (5 * (m mod 2))]
        = Inr (b64_round (of_int (5 * m) / 10))"
    by (simp only: py_float_3_1 [OF dc(1) dc(3) dc(5) dc(7)] dc v)
  also have "of_int (5 * m) / 10 = (of_int m / 2 :: rat)" by simp
  also have "b64_round (of_int m / 2) = Finite (of_int m / 2)"
    using assms by (intro b64_round_half_step half_step_half) simp
  finally have f: "py_float [digit_char (m div 200), digit_char (m div 20 mod 10),
      digit_char (m div 2 mod 10), CHR ''.'', digit_char (5 * (m mod 2))] = Inr (Finite (of_int m / 2))" .
  have i1: "py_int ''1000'' = Inr 1000" by code_simp
  have i2: "py_int ''200'' = Inr 200" by code_simp
  have "fl_mul (Finite (of_int m / 2)) (Finite 2) = b64_round (of_int m)"
    by (simp add: fl_mul_def)
  also have "\<dots> = Finite (of_int m)"
    using assms by (intro b64_round_half_step half_step_int) simp
  finally have mul: "fl_mul (Finite (of_int m / 2)) (Finite 2) = Finite (of_int m)" .
  have "b64_round (of_int m / of_int 2) = Finite (of_int m / 2)"
    using assms by (simp only: of_int_numeral) (intro b64_round_half_step half_step_half, simp)
  then have dv: "int_truediv m 2 = Inr (of_int m / 2)"
    by (simp add: int_truediv_def)
  show ?thesis
    by (simp add: parse_fields_def f i1 i2 mul dv)
qed

lemma measurement_half_degree_line:
  assumes "0 \<le> m" and "m \<le> 719"
  shows "measurement 8000 (half_degree_line m) = Some (of_int m / 2, 1000, 200)"
proof -
  note r = half_degree_ranges [OF assms]
  note dc = digit_char [OF r(1,2)] digit_char [OF r(3,4)] digit_char [OF r(5,6)] digit_char [OF r(7,8)]
  let ?a = "digit_char (m div 200)" and ?b = "digit_char (m div 20 mod 10)"
  let ?c = "digit_char (m div 2 mod 10)" and ?f = "digit_char (5 * (m mod 2))"
  let ?p0 = "[?a, ?b, ?c, CHR ''.'', ?f]"
  note fa = digit_facts [OF dc(1)] and fb = digit_facts [OF dc(3)]
    and fc = digit_facts [OF dc(5)] and ff = digit_facts [OF dc(7)]
  have l: "half_degree_line m = ?p0 @ '',1000,200''" by (simp add: half_degree_line_def)
  have z: "\<not> isspace (CHR ''0'')" by (simp add: isspace_def)
  have st: "strip (?p0 @ '',1000,200'') = ?p0 @ '',1000,200''"
    using fa(2) z by (simp add: strip_def)
  have sw: "\<not> startswith (?p0 @ '',1000,200'') ''LD06''"
    using fa(9) by (simp add: startswith_def)
  have sp: "split (CHR '','') (?p0 @ '',1000,200'') = [?p0, ''1000'', ''200'']"
    using fa(4) fb(4) fc(4) ff(4) by simp
  show ?thesis
    unfolding measurement_def process_line_def l st Let_def sp
    using sw by (simp add: try_record_def parse_fields_half_degree [OF assms])
qed

lemma overfull_rotation_measurements:
  "List.map_filter (measurement 8000)
     (map half_degree_line [0..719] @ [''359.8,1000,200''])
   = map (\<lambda>m. (of_int m / 2, 1000, 200)) [0..720]"
proof -
  have a: "List.map_filter (measurement 8000) (map half_degree_line [0..719])
           = map (\<lambda>m. (of_int m / 2, 1000, 200)) [0..719]"
    by (rule map_filter_map_Some) (simp add: measurement_half_degree_line)
  have b: "measurement 8000 ''359.8,1000,200'' = Some (360, 1000, 200)" by code_simp
  have c: "[0..720] = [0..719] @ [720::int]"
    using upto_rec2 [of 0 720] by simp
  show ?thesis
    by (simp only: c map_append map_filter_append a) (simp add: List.map_filter_simps b)
qed

subsection \<open>The properties\<close>

text \<open>
  C10. Without a serial handle \<open>read_points\<close> returns at once: no exception, and the whole
  visualiser, with its point map and its counter, is as before.
\<close>

theorem read_points_no_connection:
  "ser st = None \<Longrightarrow> read_points st = (Returned, st)"
  by (simp add: read_points_def)

theorem read_points_no_connection_witness:
  "ser (init ''COM3'' 921600) = None \<and>
   read_points (init ''COM3'' 921600) = (Returned, init ''COM3'' 921600)"
proof -
  have h: "ser (init ''COM3'' 921600) = None" by (simp add: init_def)
  from read_points_no_connection [OF h] show ?thesis using h by simp
qed

text \<open>
  C2, at a line whose angle field is an infinity. \<open>float('inf')\<close> succeeds, so do the two
  \<open>int\<close> conversions, and \<open>round\<close> of the infinite product raises \<open>OverflowError\<close>, which
  the handler \<open>except ValueError\<close> does not catch and \<open>except serial.SerialException\<close>
  neither: the exception leaves \<open>read_points\<close>, and the lines behind it stay unread.
\<close>

theorem infinite_angle_raises:
  "process_line ''inf,100,200'' (init ''COM3'' 921600) =
     (Some OverflowError, init ''COM3'' 921600) \<and>
   read_points ((init ''COM3'' 921600)
      \<lparr>ser := Some [RxLine ''12.5,100,200'', RxLine ''inf,100,200'', RxLine ''13.0,90,210'']\<rparr>) =
     (Raised OverflowError,
      (init ''COM3'' 921600)
        \<lparr>ser := Some [RxLine ''13.0,90,210''],
          points := [(25 / 2, 100, 200)],
          point_count := 1\<rparr>)"
  by code_simp

text \<open>
  C1. Latest wins. Take a read pass over lines that are all stored (each parses and has
  its distance in range), from a point map with distinct keys, as every \<open>dict\<close> has. The
  pass returns; the keys are still distinct, so each angle bin has exactly one entry;
  the bins present are the earlier ones and those of the lines; and the entry of a bin
  is the pair of the last line of that bin, or the earlier entry if no line has that bin:
  the map is the earlier map overridden by the measurements, later ones first.
\<close>

theorem latest_wins:
  assumes "ser st = Some (map RxLine ls)"
    and "distinct (map fst (points st))"
    and "\<forall>l\<in>set ls. measurement (max_distance st) l \<noteq> None"
  shows "fst (read_points st) = Returned \<and>
         distinct (map fst (points (snd (read_points st)))) \<and>
         fst ` set (points (snd (read_points st))) =
           fst ` set (points st) \<union> fst ` set (List.map_filter (measurement (max_distance st)) ls) \<and>
         map_of (points (snd (read_points st))) =
           map_of (points st) ++ map_of (rev (List.map_filter (measurement (max_distance st)) ls))"
proof -
  from read_loop_accepts [OF assms(3)] obtain st' where
    rl: "read_loop (map RxLine ls) st = (None, [], st')" and
    pts: "points st' = fold (\<lambda>(k, v). AList.update k v)
                    (List.map_filter (measurement (max_distance st)) ls) (points st)"
    by blast
  from rl assms(1) have rp: "read_points st = (Returned, st'\<lparr>ser := Some []\<rparr>)"
    by (simp add: read_points_def)
  show ?thesis
    using assms(2)
    by (simp add: rp pts fold_update_map_of fold_update_distinct fold_update_keys)
qed

theorem latest_wins_witness:
  "fst (read_points ((init ''COM3'' 921600)\<lparr>ser := Some (map RxLine
        [''0.2,1500,200'', ''0.3,1600,210'', ''0.1,1700,220''])\<rparr>)) = Returned \<and>
   map_of (points (snd (read_points ((init ''COM3'' 921600)\<lparr>ser := Some (map RxLine
        [''0.2,1500,200'', ''0.3,1600,210'', ''0.1,1700,220''])\<rparr>)))) =
     map_of [] ++ map_of (rev [(0, 1500, 200), (1 / 2, 1600, 210), (0, 1700, 220)])"
proof -
  let ?ls = "[''0.2,1500,200'', ''0.3,1600,210'', ''0.1,1700,220'']"
  let ?st = "(init ''COM3'' 921600)\<lparr>ser := Some (map RxLine ?ls)\<rparr>"
  have m: "List.map_filter (measurement 8000) ?ls = [(0, 1500, 200), (1 / 2, 1600, 210), (0, 1700, 220)]"
    by code_simp
  have m1: "measurement 8000 ''0.2,1500,200'' \<noteq> None" by code_simp
  have m2: "measurement 8000 ''0.3,1600,210'' \<noteq> None" by code_simp
  have m3: "measurement 8000 ''0.1,1700,220'' \<noteq> None" by code_simp
  have h1: "ser ?st = Some (map RxLine ?ls)" by simp
  have h2: "distinct (map fst (points ?st))" by (simp add: init_def)
  have md: "max_distance ?st = 8000" by (simp add: init_def)
  have p0: "points ?st = []" by (simp add: init_def)
  have h3: "\<forall>l\<in>set ?ls. measurement (max_distance ?st) l \<noteq> None"
    using m1 m2 m3 by (simp add: init_def)
  from latest_wins [OF h1 h2 h3] show ?thesis unfolding md m p0 by blast
qed



text \<open>
  C3, as the code has it. Every key of the point map is a multiple of \<open>0.5\<close>, before and
  after any read pass: the key is \<open>round(angle * 2) / 2\<close>. The code neither wraps the
  angle nor checks its range, so the key need not lie in \<open>[0, 360)\<close>.
\<close>

theorem keys_half_steps:
  "list_all half_step (map fst (points st))
   \<Longrightarrow> list_all half_step (map fst (points (snd (read_points st))))"
proof (rule read_points_invariant [where P = "\<lambda>s::visualiser. list_all half_step (map fst (points s))"])
  fix raw and s :: visualiser
  assume "list_all half_step (map fst (points s))"
  then show "list_all half_step (map fst (points (snd (process_line raw s))))"
    by (rule process_line_keys) (rule measurement_half_step)
qed simp_all

theorem keys_half_steps_witness:
  "list_all half_step (map fst (points (init ''COM3'' 921600))) \<and>
   list_all half_step (map fst (points (snd (read_points ((init ''COM3'' 921600)
      \<lparr>ser := Some [RxLine ''400.0,100,200'', RxLine ''-10.3,100,200'',
                     RxLine ''359.8,100,200'']\<rparr>)))))"
proof -
  let ?st = "(init ''COM3'' 921600)
      \<lparr>ser := Some [RxLine ''400.0,100,200'', RxLine ''-10.3,100,200'', RxLine ''359.8,100,200'']\<rparr>"
  have h: "list_all half_step (map fst (points ?st))" by (simp add: init_def)
  from keys_half_steps [OF h] show ?thesis by (simp add: init_def)
qed

text \<open>
  C3 as stated fails: the angles \<open>400.0\<close> and \<open>-10.3\<close> are stored under the keys \<open>400.0\<close>
  and \<open>-10.5\<close>, and the angle \<open>359.8\<close>, itself within a rotation, under the key \<open>360.0\<close>.
\<close>

theorem keys_outside_rotation:
  "map fst (points (snd (read_points ((init ''COM3'' 921600)
      \<lparr>ser := Some [RxLine ''400.0,100,200'', RxLine ''-10.3,100,200'',
                     RxLine ''359.8,100,200'']\<rparr>)))) = [400, - (21 / 2), 360] \<and>
   \<not> list_all legal_bin (map fst (points (snd (read_points ((init ''COM3'' 921600)
      \<lparr>ser := Some [RxLine ''400.0,100,200'', RxLine ''-10.3,100,200'',
                     RxLine ''359.8,100,200'']\<rparr>)))))"
  by code_simp

text \<open>
  C4, as the code has it. From a point map whose keys are among the 720 bins from \<open>0.0\<close>
  to \<open>359.5\<close>, a read pass whose stored lines all fall into those bins leaves at most 720
  entries, however many lines it reads.
\<close>

theorem size_bound_legal_bins:
  assumes "distinct (map fst (points st))"
    and "list_all legal_bin (map fst (points st))"
    and "\<forall>evs. ser st = Some evs \<longrightarrow>
           (\<forall>raw\<in>set (rx_lines evs). \<forall>k v. measurement (max_distance st) raw = Some (k, v) \<longrightarrow> legal_bin k)"
  shows "length (points (snd (read_points st))) \<le> 720"
proof -
  let ?P = "\<lambda>s::visualiser. max_distance s = max_distance st \<and> distinct (map fst (points s)) \<and>
                 list_all legal_bin (map fst (points s))"
  have "?P (snd (read_points st))"
  proof (rule read_points_invariant_on)
    show "?P st" using assms(1,2) by simp
    show "?P (snd (process_line raw s))"
      if "ser st = Some evs" "raw \<in> set (rx_lines evs)" "?P s" for evs raw s
    proof (intro conjI)
      show "max_distance (snd (process_line raw s)) = max_distance st"
        using that(3) by (simp add: process_line_max_distance)
      show "distinct (map fst (points (snd (process_line raw s))))"
        using that(3) by (simp add: process_line_distinct)
      from that(3) have md: "max_distance s = max_distance st" by simp
      from that(3) have "list_all legal_bin (map fst (points s))" by simp
      then show "list_all legal_bin (map fst (points (snd (process_line raw s))))"
      proof (rule process_line_keys)
        fix k v assume "measurement (max_distance s) raw = Some (k, v)"
        with assms(3) that(1,2) md show "legal_bin k" by auto
      qed
    qed
    show "?P (s\<lparr>ser := x\<rparr>)" if "?P s" for s x using that by auto
  qed
  then have "length (map fst (points (snd (read_points st)))) \<le> 720"
    by (intro legal_bins_bounded) simp_all
  then show ?thesis by simp
qed

theorem size_bound_legal_bins_witness:
  "distinct (map fst (points ((init ''COM3'' 921600)
      \<lparr>ser := Some [RxLine ''0.2,1500,200'', RxLine ''LD06 booting'', RxLine ''359.6,1600,210'']\<rparr>))) \<and>
   list_all legal_bin (map fst (points ((init ''COM3'' 921600)
      \<lparr>ser := Some [RxLine ''0.2,1500,200'', RxLine ''LD06 booting'', RxLine ''359.6,1600,210'']\<rparr>))) \<and>
   length (points (snd (read_points ((init ''COM3'' 921600)
      \<lparr>ser := Some [RxLine ''0.2,1500,200'', RxLine ''LD06 booting'', RxLine ''359.6,1600,210'']\<rparr>)))) \<le> 720"
proof -
  let ?st = "(init ''COM3'' 921600)
      \<lparr>ser := Some [RxLine ''0.2,1500,200'', RxLine ''LD06 booting'', RxLine ''359.6,1600,210'']\<rparr>"
  have m1: "measurement 8000 ''0.2,1500,200'' = Some (0, 1500, 200)" by code_simp
  have m2: "measurement 8000 ''LD06 booting'' = None" by code_simp
  have m3: "measurement 8000 ''359.6,1600,210'' = Some (719 / 2, 1600, 210)" by code_simp
  have l1: "legal_bin 0" by (simp add: legal_bin_def half_step_def)
  have l3: "legal_bin (719 / 2)" by (simp add: legal_bin_def half_step_def)
  have h1: "distinct (map fst (points ?st))" by (simp add: init_def)
  have h2: "list_all legal_bin (map fst (points ?st))" by (simp add: init_def)
  have h3: "\<forall>evs. ser ?st = Some evs \<longrightarrow>
      (\<forall>raw\<in>set (rx_lines evs). \<forall>k v. measurement (max_distance ?st) raw = Some (k, v) \<longrightarrow> legal_bin k)"
  proof (intro allI impI ballI)
    fix evs raw k v
    assume e: "ser ?st = Some evs" and r: "raw \<in> set (rx_lines evs)"
      and m: "measurement (max_distance ?st) raw = Some (k, v)"
    have md: "max_distance ?st = 8000" by (simp add: init_def)
    from e r have "raw = ''0.2,1500,200'' \<or> raw = ''LD06 booting'' \<or> raw = ''359.6,1600,210''"
      by auto
    then show "legal_bin k"
    proof (elim disjE)
      assume "raw = ''0.2,1500,200''"
      with m have "measurement 8000 ''0.2,1500,200'' = Some (k, v)" by (simp only: md)
      with m1 have "k = 0" by simp
      with l1 show ?thesis by (simp only:)
    next
      assume "raw = ''LD06 booting''"
      with m have "measurement 8000 ''LD06 booting'' = Some (k, v)" by (simp only: md)
      with m2 show ?thesis by simp
    next
      assume "raw = ''359.6,1600,210''"
      with m have "measurement 8000 ''359.6,1600,210'' = Some (k, v)" by (simp only: md)
      with m3 have "k = 719 / 2" by simp
      with l3 show ?thesis by (simp only:)
    qed
  qed
  from size_bound_legal_bins [OF h1 h2 h3] show ?thesis using h1 h2 by blast
qed

text \<open>
  C4 as stated fails: after the 720 half-degree readings of one rotation, a reading at
  \<open>359.8\<close> degrees is stored under the key \<open>360.0\<close>, the 721st entry.
\<close>

theorem overfull_rotation_size:
  "length (points (snd (read_points ((init ''COM3'' 921600)\<lparr>ser := Some overfull_rotation\<rparr>)))) = 721 \<and>
   \<not> length (points (snd (read_points ((init ''COM3'' 921600)\<lparr>ser := Some overfull_rotation\<rparr>)))) \<le> 720"
proof -
  let ?ls = "map half_degree_line [0..719] @ [''359.8,1000,200'']"
  let ?st = "(init ''COM3'' 921600)\<lparr>ser := Some overfull_rotation\<rparr>"
  let ?recs = "map (\<lambda>m. (of_int m / 2 :: rat, 1000 :: int, 200 :: int)) [0..720]"
  have ev: "overfull_rotation = map RxLine ?ls" by (simp add: overfull_rotation_def)
  have md: "max_distance ?st = 8000" by (simp add: init_def)
  have "measurement 8000 l \<noteq> None" if "l \<in> set ?ls" for l
  proof -
    from that consider m where "0 \<le> m" "m \<le> 719" "l = half_degree_line m" | "l = ''359.8,1000,200''"
      by auto
    then show ?thesis
    proof cases
      case 1
      then show ?thesis by (simp add: measurement_half_degree_line)
    next
      case 2
      have "measurement 8000 ''359.8,1000,200'' \<noteq> None" by code_simp
      with 2 show ?thesis by simp
    qed
  qed
  then have "\<forall>l\<in>set ?ls. measurement (max_distance ?st) l \<noteq> None" by (simp only: md) blast
  from read_loop_accepts [OF this] obtain st' where
    rl: "read_loop (map RxLine ?ls) ?st = (None, [], st')" and
    pts: "points st' = fold (\<lambda>(k, v). AList.update k v)
                    (List.map_filter (measurement (max_distance ?st)) ?ls) (points ?st)"
    by blast
  have p: "points st' = fold (\<lambda>(k, v). AList.update k v) ?recs []"
    using pts by (simp only: md overfull_rotation_measurements) (simp add: init_def)
  have rp: "points (snd (read_points ?st)) = points st'"
    using rl by (simp add: read_points_def ev)
  have d: "distinct (map fst (points st'))"
    unfolding p by (rule fold_update_distinct) simp
  have "set (map fst (points st')) = (\<lambda>m. of_int m / 2) ` {0..720::int}"
    unfolding p by (simp add: fold_update_keys image_image)
  moreover have "inj_on (\<lambda>m. of_int m / 2 :: rat) {0..720::int}"
    by (rule inj_onI) simp
  ultimately have "card (set (map fst (points st'))) = card {0..720::int}"
    by (simp add: card_image)
  with distinct_card [OF d] have "length (points st') = 721" by simp
  then show ?thesis by (simp add: rp)
qed

end
